theory Spec2Isabelle
  imports Main
begin

section \<open>Values\<close>

text \<open>
  The eleven protocol interfaces, in the order of the type switch of
  \<open>Scope.AddProtocolImpl\<close> (scope.go).
\<close>

datatype protocol =
    BoolProtocol | EqProtocol | LtProtocol | AddProtocol | SubProtocol | MulProtocol
  | DivProtocol | MembershipProtocol | AssociativeProtocol | RegexProtocol | IterateProtocol

text \<open>
  Go's \<open>Any\<close> (\<open>interface{}\<close>). \<open>Nil\<close> is the nil interface, \<open>Null\<close> is vfilter's
  \<open>Null{}\<close>. \<open>Dict\<close> is an \<open>*ordereddict.Dict\<close> (keys in insertion order), \<open>LazyExpr v\<close>
  a lazy expression whose \<open>Reduce()\<close> returns \<open>v\<close>, \<open>StoredQuery rows\<close> a stored query
  whose \<open>Eval\<close> channel delivers \<open>rows\<close>. \<open>Host t ps\<close> is a value of the host type
  named \<open>t\<close> whose method set satisfies exactly the protocol interfaces \<open>ps\<close> (the interface
  declarations are not part of the sources, so the satisfaction relation is carried by the
  value).
\<close>

datatype any =
    Nil
  | Null
  | Boolean bool
  | Int64 int
  | Str string
  | Dict "(string \<times> any) list"
  | Slice "any list"
  | LazyExpr any
  | StoredQuery "any list"
  | Host string "protocol list"

type_synonym Row = any

section \<open>Scope.Resolve\<close>

text \<open>
  \<open>Scope.Associative\<close> hands over to the associative dispatcher, whose code is not among
  the sources; it is a parameter \<open>A\<close> here: \<open>A a b\<close> is the pair \<open>(res, pres)\<close>.

  The loop of \<open>Resolve\<close> visits \<open>self.vars[len - 1]\<close> down to \<open>self.vars[0]\<close>; the function
  below takes the frames in visiting order together with \<open>default_value\<close>.
\<close>

fun Resolve_loop :: "(any \<Rightarrow> string \<Rightarrow> any \<times> bool) \<Rightarrow> string \<Rightarrow> Row list \<Rightarrow> any \<Rightarrow> any \<times> bool" where
  "Resolve_loop A field [] default_value = (default_value, default_value \<noteq> Nil)"
| "Resolve_loop A field (subscope # older) default_value =
     (case A subscope field of
        (element, pres) \<Rightarrow>
          if pres then ((if element = Nil then Null else element), True)
          else Resolve_loop A field older
                 (if element \<noteq> Nil \<and> default_value = Nil then element else default_value))"

definition Resolve_vars :: "(any \<Rightarrow> string \<Rightarrow> any \<times> bool) \<Rightarrow> Row list \<Rightarrow> string \<Rightarrow> any \<times> bool" where
  "Resolve_vars A vs field = Resolve_loop A field (rev vs) Nil"


section \<open>Slices, scopes and the heap\<close>

text \<open>
  A Go slice is a header (pointer, length, capacity) over a backing array, and two headers
  may share an array. The dispatchers' \<open>impl\<close> slices are modelled with their headers and
  a store of backing arrays (a pointer is an index into \<open>arrays\<close>), since whether a child
  scope shares its parent's lists is a question of aliasing. A header of capacity 0 (a nil
  or empty slice) refers to no array and its \<open>ptr\<close> is not read.
\<close>

record slice =
  ptr :: nat
  len :: nat
  cap :: nat

type_synonym destructor = nat

text \<open>
  The \<open>Scope\<close> struct. Each dispatcher struct has the single field \<open>impl\<close>, so a
  dispatcher is its slice (\<open>bool_d\<close> is the field \<open>bool\<close>, and so on). \<open>vars\<close> and
  \<open>destructors.fn\<close> are slices too, but every one of them is made afresh for its scope
  (a literal in \<open>NewScope\<close>, a copy in \<open>Copy\<close> and \<open>Close\<close>) and grown only by \<open>append\<close>
  through its own scope, so a list has the same behaviour. \<open>children\<close> holds pointers to
  scopes (indices into \<open>scopes\<close>). A destructor is a closure \<open>func()\<close>; it is identified by a
  number and running it is recorded in the trace \<open>calls\<close>. The fields \<open>functions\<close>,
  \<open>plugins\<close>, \<open>Logger\<close>, \<open>Tracer\<close> and \<open>context\<close> are not read by the methods below and
  are left out; so is the mutex (one goroutine uses the scope).
\<close>

record Scope =
  vars :: "Row list"
  bool_d :: slice
  eq_d :: slice
  lt_d :: slice
  add_d :: slice
  sub_d :: slice
  mul_d :: slice
  div_d :: slice
  membership_d :: slice
  associative_d :: slice
  regex_d :: slice
  iterator_d :: slice
  stack_depth :: int
  children :: "nat list"
  destructors_fn :: "destructor list"
  destructors_is_destroyed :: bool

text \<open>
  The program state: the allocated \<open>Scope\<close> objects (a \<open>*Scope\<close> is an index; an index
  that is not allocated stands for the nil pointer), the backing arrays, the trace of
  destructor calls (oldest first), and the capacity policy of the Go runtime when \<open>append\<close>
  has to allocate (old capacity, needed length), which the language leaves open.
\<close>

record state =
  scopes :: "Scope list"
  arrays :: "any list list"
  calls :: "destructor list"
  growslice :: "nat \<Rightarrow> nat \<Rightarrow> nat"

datatype error = NilPointer | Panic string | OutOfFuel

definition nil_slice :: slice where
  "nil_slice = \<lparr>ptr = 0, len = 0, cap = 0\<rparr>"

definition elems :: "state \<Rightarrow> slice \<Rightarrow> any list" where
  \<comment> \<open>the elements \<open>s[0]\<close> .. \<open>s[len - 1]\<close>\<close>
  "elems st s = take (len s) (arrays st ! ptr s)"

definition go_append :: "slice \<Rightarrow> any list \<Rightarrow> state \<Rightarrow> slice \<times> state" where
  \<comment> \<open>Go's \<open>append(s, xs...)\<close>: in place when the capacity suffices, else into a new array\<close>
  "go_append s xs st =
     (let n = len s + length xs in
      if xs = [] then (s, st)
      else if n \<le> cap s then
        (s\<lparr>len := n\<rparr>,
         st\<lparr>arrays := (arrays st)[ptr s :=
               take (len s) (arrays st ! ptr s) @ xs @ drop n (arrays st ! ptr s)]\<rparr>)
      else
        (let c = max n (growslice st (cap s) n);
             a = elems st s @ xs @ replicate (c - n) Nil
         in (\<lparr>ptr = length (arrays st), len = n, cap = c\<rparr>,
             st\<lparr>arrays := arrays st @ [a]\<rparr>)))"

definition Dispatcher_Copy :: "slice \<Rightarrow> state \<Rightarrow> slice \<times> state" where
  \<comment> \<open>\<open>IterateDispatcher.Copy\<close>: \<open>append([]IterateProtocol{}, self.impl...)\<close>\<close>
  "Dispatcher_Copy impl st = go_append nil_slice (elems st impl) st"

fun Dispatcher_AddImpl :: "slice \<Rightarrow> any list \<Rightarrow> state \<Rightarrow> slice \<times> state" where
  \<comment> \<open>\<open>IterateDispatcher.AddImpl\<close>: \<open>self.impl = append(self.impl, impl)\<close> for each element\<close>
  "Dispatcher_AddImpl impl [] st = (impl, st)"
| "Dispatcher_AddImpl impl (e # elements) st =
     (case go_append impl [e] st of (impl', st') \<Rightarrow> Dispatcher_AddImpl impl' elements st')"

text \<open>
  Modelled from the spec: of the eleven dispatchers only the iterate dispatcher's \<open>Copy\<close>
  and \<open>AddImpl\<close> are among the sources (protocol\_iterate.go). The other ten are taken to be
  the same two methods over their own \<open>impl\<close> slice ("each of the eleven operations is
  resolved by a dispatcher holding an ordered list of implementations", "Copy() duplicates
  each dispatcher's list").
\<close>

fun dispatcher :: "protocol \<Rightarrow> Scope \<Rightarrow> slice" where
  "dispatcher BoolProtocol sc = bool_d sc"
| "dispatcher EqProtocol sc = eq_d sc"
| "dispatcher LtProtocol sc = lt_d sc"
| "dispatcher AddProtocol sc = add_d sc"
| "dispatcher SubProtocol sc = sub_d sc"
| "dispatcher MulProtocol sc = mul_d sc"
| "dispatcher DivProtocol sc = div_d sc"
| "dispatcher MembershipProtocol sc = membership_d sc"
| "dispatcher AssociativeProtocol sc = associative_d sc"
| "dispatcher RegexProtocol sc = regex_d sc"
| "dispatcher IterateProtocol sc = iterator_d sc"

fun set_dispatcher :: "protocol \<Rightarrow> slice \<Rightarrow> Scope \<Rightarrow> Scope" where
  "set_dispatcher BoolProtocol s sc = sc\<lparr>bool_d := s\<rparr>"
| "set_dispatcher EqProtocol s sc = sc\<lparr>eq_d := s\<rparr>"
| "set_dispatcher LtProtocol s sc = sc\<lparr>lt_d := s\<rparr>"
| "set_dispatcher AddProtocol s sc = sc\<lparr>add_d := s\<rparr>"
| "set_dispatcher SubProtocol s sc = sc\<lparr>sub_d := s\<rparr>"
| "set_dispatcher MulProtocol s sc = sc\<lparr>mul_d := s\<rparr>"
| "set_dispatcher DivProtocol s sc = sc\<lparr>div_d := s\<rparr>"
| "set_dispatcher MembershipProtocol s sc = sc\<lparr>membership_d := s\<rparr>"
| "set_dispatcher AssociativeProtocol s sc = sc\<lparr>associative_d := s\<rparr>"
| "set_dispatcher RegexProtocol s sc = sc\<lparr>regex_d := s\<rparr>"
| "set_dispatcher IterateProtocol s sc = sc\<lparr>iterator_d := s\<rparr>"

definition protocols :: "protocol list" where
  \<comment> \<open>the order of the fields in the struct literals of \<open>NewScope\<close> and \<open>Copy\<close>, and of the
      cases of the type switch in \<open>AddProtocolImpl\<close>\<close>
  "protocols = [BoolProtocol, EqProtocol, LtProtocol, AddProtocol, SubProtocol, MulProtocol,
                DivProtocol, MembershipProtocol, AssociativeProtocol, RegexProtocol,
                IterateProtocol]"

definition zero_Scope :: Scope where
  \<comment> \<open>the zero value \<open>Scope{}\<close>\<close>
  "zero_Scope = \<lparr>vars = [], bool_d = nil_slice, eq_d = nil_slice, lt_d = nil_slice,
     add_d = nil_slice, sub_d = nil_slice, mul_d = nil_slice, div_d = nil_slice,
     membership_d = nil_slice, associative_d = nil_slice, regex_d = nil_slice,
     iterator_d = nil_slice, stack_depth = 0, children = [], destructors_fn = [],
     destructors_is_destroyed = False\<rparr>"

definition deref :: "state \<Rightarrow> nat \<Rightarrow> Scope option" where
  "deref st p = (if p < length (scopes st) then Some (scopes st ! p) else None)"

definition store :: "nat \<Rightarrow> Scope \<Rightarrow> state \<Rightarrow> state" where
  "store p sc st = st\<lparr>scopes := (scopes st)[p := sc]\<rparr>"

definition new_Scope :: "Scope \<Rightarrow> state \<Rightarrow> nat \<times> state" where
  \<comment> \<open>\<open>&Scope{...}\<close>: allocate the struct, return its address\<close>
  "new_Scope sc st = (length (scopes st), st\<lparr>scopes := scopes st @ [sc]\<rparr>)"

fun Copy_dispatchers :: "protocol list \<Rightarrow> Scope \<Rightarrow> Scope \<Rightarrow> state \<Rightarrow> Scope \<times> state" where
  \<comment> \<open>\<open>bool: self.bool.Copy(), eq: self.eq.Copy(), ...\<close> of a struct literal, in order\<close>
  "Copy_dispatchers [] self_sc lit st = (lit, st)"
| "Copy_dispatchers (p # ps) self_sc lit st =
     (case Dispatcher_Copy (dispatcher p self_sc) st of
        (s, st') \<Rightarrow> Copy_dispatchers ps self_sc (set_dispatcher p s lit) st')"


definition Scope_Copy :: "nat \<Rightarrow> state \<Rightarrow> error + nat \<times> state" where
  "Scope_Copy self st =
     (case deref st self of
        None \<Rightarrow> Inl NilPointer
      | Some sc \<Rightarrow>
          (case Copy_dispatchers protocols sc
                  (zero_Scope\<lparr>vars := vars sc, stack_depth := stack_depth sc + 1\<rparr>) st of
             (child_scope, st') \<Rightarrow>
               (case new_Scope child_scope st' of
                  (child, st'') \<Rightarrow>
                    Inr (child, store self (sc\<lparr>children := children sc @ [child]\<rparr>) st''))))"


section \<open>Scope methods\<close>

fun satisfied :: "any \<Rightarrow> protocol list" where
  \<comment> \<open>the protocol interfaces the dynamic type of a value satisfies\<close>
  "satisfied (Host t ps) = ps"
| "satisfied v = []"

definition switch_type :: "any \<Rightarrow> protocol option" where
  \<comment> \<open>the type switch of \<open>AddProtocolImpl\<close>: the first case, in order, that the value
      satisfies; \<open>None\<close> is the \<open>default\<close> case\<close>
  "switch_type imp = List.find (\<lambda>p. p \<in> set (satisfied imp)) protocols"

definition AddImpl :: "nat \<Rightarrow> protocol \<Rightarrow> any list \<Rightarrow> state \<Rightarrow> state" where
  \<comment> \<open>\<open>self.bool.AddImpl(t)\<close>, \<open>self.eq.AddImpl(t)\<close>, ...: the dispatcher is a field of
      \<open>*self\<close> and the method has a pointer receiver\<close>
  "AddImpl self p elements st =
     (case Dispatcher_AddImpl (dispatcher p (scopes st ! self)) elements st of
        (impl', st') \<Rightarrow> store self (set_dispatcher p impl' (scopes st' ! self)) st')"

fun AddProtocolImpl_loop :: "nat \<Rightarrow> any list \<Rightarrow> state \<Rightarrow> error + state" where
  "AddProtocolImpl_loop self [] st = Inr st"
| "AddProtocolImpl_loop self (imp # implementations) st =
     (case switch_type imp of
        None \<Rightarrow> Inl (Panic ''Unsupported interface'')
      | Some p \<Rightarrow> AddProtocolImpl_loop self implementations (AddImpl self p [imp] st))"

definition AddProtocolImpl :: "nat \<Rightarrow> any list \<Rightarrow> state \<Rightarrow> error + state" where
  \<comment> \<open>returns \<open>self\<close>; the result here is the state\<close>
  "AddProtocolImpl self implementations st =
     (if self < length (scopes st) then AddProtocolImpl_loop self implementations st
      else Inl NilPointer)"

definition AppendVars :: "nat \<Rightarrow> Row \<Rightarrow> state \<Rightarrow> error + state" where
  "AppendVars self row st =
     (case deref st self of
        None \<Rightarrow> Inl NilPointer
      | Some sc \<Rightarrow> Inr (store self (sc\<lparr>vars := vars sc @ [row]\<rparr>) st))"

definition Resolve :: "(any \<Rightarrow> string \<Rightarrow> any \<times> bool) \<Rightarrow> nat \<Rightarrow> string \<Rightarrow> state \<Rightarrow> error + any \<times> bool" where
  "Resolve A self field st =
     (case deref st self of
        None \<Rightarrow> Inl NilPointer
      | Some sc \<Rightarrow> Inr (Resolve_vars A (vars sc) field))"





section \<open>IterateDispatcher.Iterate\<close>

text \<open>
  A registered implementation of the iterate protocol (protocol\_iterate.go). A channel of
  rows is modelled by the list of rows it delivers before it is closed.
\<close>

record IterateImpl =
  Applicable :: "any \<Rightarrow> bool"
  Iterate :: "any \<Rightarrow> Row list"

text \<open>
  Modelled from the spec: the helper \<open>is_null\<close> is called by \<open>Iterate\<close> but is not among
  the sources. It follows the spec's words, "Iterate returns a single-row stream
  \<open>{_value: a}\<close> (unless a is Null, in which case an empty stream)": it holds of \<open>Null{}\<close>
  and of no other value.
\<close>

definition is_null :: "any \<Rightarrow> bool" where
  "is_null a = (a = Null)"

text \<open>
  \<open>ctx_done\<close> says that the \<open>select\<close> of the dict case takes \<open>ctx.Done()\<close>.
  \<open>scope.Iterate\<close> (scope.go) hands the reduced value of a lazy expression back to the
  dispatcher. The statistics counter and the trace message are not modelled.
\<close>

fun IterateDispatcher_Iterate :: "IterateImpl list \<Rightarrow> bool \<Rightarrow> any \<Rightarrow> Row list" where
  "IterateDispatcher_Iterate impl ctx_done (LazyExpr t) =
     IterateDispatcher_Iterate impl ctx_done t"
| "IterateDispatcher_Iterate impl ctx_done (StoredQuery rows) = rows"
| "IterateDispatcher_Iterate impl ctx_done (Dict t) =
     (if ctx_done then [] else [Dict t])"
| "IterateDispatcher_Iterate impl ctx_done a =
     (case List.find (\<lambda>i. Applicable i a) impl of
        Some i \<Rightarrow> Iterate i a
      | None \<Rightarrow> if \<not> is_null a then [Dict [(''_value'', a)]] else [])"

fun type_switch_case :: "any \<Rightarrow> bool" where
  \<comment> \<open>the value is taken by a case of the type switch at the head of \<open>Iterate\<close>\<close>
  "type_switch_case (LazyExpr t) = True"
| "type_switch_case (StoredQuery rows) = True"
| "type_switch_case (Dict t) = True"
| "type_switch_case a = False"

section \<open>LET bindings\<close>

text \<open>
  Modelled from the spec: the evaluator (parsing, \<open>SELECT\<close>, \<open>LET\<close>) is not among the
  sources; only the test \<open>TestMaterializedStoredQuery\<close> and the function \<open>counter()\<close> it
  registers are. The definitions of this section follow the spec's words:
  "\<open>LET x = SELECT ...\<close> binds \<open>x\<close> to a StoredQuery (lazy: a fresh Eval runs on each
  reference). \<open>LET x <= SELECT ...\<close> binds \<open>x\<close> to a Sequence obtained by draining the
  StoredQuery exactly once at the point of LET."

  A query selects either \<open>*\<close> or the column \<open>counter()\<close> from a plugin (given by the rows
  it emits) or from a variable. \<open>counter()\<close> is \<open>CounterFunction.Call\<close> of the test file: it
  increments \<open>CounterFunctionCount\<close> and returns it; the column is reduced once for each
  row that the consumer reads, and \<open>run_query\<close> (the test's helper, which calls
  \<open>OutputJSON\<close>) reads every row. \<open>Eval\<close> is bounded by the stack depth ceiling of the
  spec; beyond it a query yields nothing.
\<close>

datatype source = FromPlugin "Row list" | FromVar string

datatype column = Star | Counter

datatype query = Select column source

datatype statement = Query query | LET string query | LET_materialized string query

datatype binding = Stored query | Sequence "Row list"

record session =
  CounterFunctionCount :: nat
  bindings :: "string \<rightharpoonup> binding"

fun project :: "column \<Rightarrow> Row list \<Rightarrow> nat \<Rightarrow> Row list \<times> nat" where
  \<comment> \<open>Modelled from the spec: the projection of the rows of a source (the evaluator is
      missing); \<open>counter()\<close> is called once for each row, in order\<close>
  "project Star rows c = (rows, c)"
| "project Counter [] c = ([], c)"
| "project Counter (r # rows) c =
     (case project Counter rows (c + 1) of
        (out, c') \<Rightarrow> (Dict [(''counter()'', Int64 (int (c + 1)))] # out, c'))"

fun Eval :: "nat \<Rightarrow> query \<Rightarrow> (string \<rightharpoonup> binding) \<Rightarrow> nat \<Rightarrow> Row list \<times> nat" where
  \<comment> \<open>Modelled from the spec: \<open>Eval\<close> of a \<open>SELECT\<close> (missing); a reference to a stored
      query runs a fresh \<open>Eval\<close>, a reference to a sequence reads its rows\<close>
  "Eval 0 q env c = ([], c)"
| "Eval (Suc depth) (Select col (FromPlugin rows)) env c = project col rows c"
| "Eval (Suc depth) (Select col (FromVar x)) env c =
     (case env x of
        None \<Rightarrow> project col [] c
      | Some (Sequence rows) \<Rightarrow> project col rows c
      | Some (Stored q) \<Rightarrow>
          (case Eval depth q env c of (rows, c') \<Rightarrow> project col rows c'))"

fun run_query :: "nat \<Rightarrow> statement \<Rightarrow> session \<Rightarrow> session" where
  \<comment> \<open>Modelled from the spec: evaluating one statement (missing); \<open>LET x = q\<close> stores the
      query, \<open>LET x <= q\<close> drains it once and stores the rows\<close>
  "run_query depth (Query q) s =
     s\<lparr>CounterFunctionCount := snd (Eval depth q (bindings s) (CounterFunctionCount s))\<rparr>"
| "run_query depth (LET x q) s = s\<lparr>bindings := (bindings s)(x \<mapsto> Stored q)\<rparr>"
| "run_query depth (LET_materialized x q) s =
     (case Eval depth q (bindings s) (CounterFunctionCount s) of
        (rows, c') \<Rightarrow> \<lparr>CounterFunctionCount = c', bindings = (bindings s)(x \<mapsto> Sequence rows)\<rparr>)"

fun run_queries :: "nat \<Rightarrow> statement list \<Rightarrow> session \<Rightarrow> session" where
  "run_queries depth [] s = s"
| "run_queries depth (q # qs) s = run_queries depth qs (run_query depth q s)"

text \<open>A later reference to a binding: \<open>SELECT * FROM x\<close>.\<close>

definition reference :: "string \<Rightarrow> statement" where
  "reference x = Query (Select Star (FromVar x))"

section \<open>Invariants of the slice store\<close>

text \<open>
  \<open>slice_ok\<close>: the header is one the Go runtime can have made (length within capacity; a
  positive capacity is the length of the allocated array it points to). \<open>disjoint\<close>: two
  headers do not share a backing array. \<open>scope_ok\<close>: the eleven dispatcher slices of a
  scope are well formed and pairwise disjoint. \<open>valid_ptr\<close> is the part of \<open>slice_ok\<close>
  that reading the elements needs. \<open>fresh N s\<close>: the slice \<open>s\<close> does not use any of the
  first \<open>N\<close> arrays; \<open>copied\<close>: the dispatcher \<open>p\<close> of the struct literal \<open>lit\<close> holds a
  fresh copy of the one of \<open>sc\<close>.
\<close>

definition slice_ok :: "state \<Rightarrow> slice \<Rightarrow> bool" where
  "slice_ok st s =
     (len s \<le> cap s \<and>
      (0 < cap s \<longrightarrow> ptr s < length (arrays st) \<and> length (arrays st ! ptr s) = cap s))"

definition disjoint :: "slice \<Rightarrow> slice \<Rightarrow> bool" where
  "disjoint s t = (0 < cap s \<and> 0 < cap t \<longrightarrow> ptr s \<noteq> ptr t)"

definition scope_ok :: "state \<Rightarrow> Scope \<Rightarrow> bool" where
  "scope_ok st sc =
     (list_all (\<lambda>p. slice_ok st (dispatcher p sc)) protocols \<and>
      list_all (\<lambda>p. list_all (\<lambda>q. p = q \<or> disjoint (dispatcher p sc) (dispatcher q sc)) protocols)
        protocols)"

definition valid_ptr :: "state \<Rightarrow> slice \<Rightarrow> bool" where
  "valid_ptr st s = (0 < len s \<longrightarrow> ptr s < length (arrays st))"

definition fresh :: "nat \<Rightarrow> slice \<Rightarrow> bool" where
  "fresh N s = (cap s = 0 \<or> N \<le> ptr s)"

definition copied :: "nat \<Rightarrow> state \<Rightarrow> Scope \<Rightarrow> Scope \<Rightarrow> protocol \<Rightarrow> bool" where
  "copied N st sc lit p =
     (fresh N (dispatcher p lit) \<and> valid_ptr st (dispatcher p lit) \<and>
      elems st (dispatcher p lit) = elems st (dispatcher p sc))"

section \<open>Invariants of the scope tree\<close>



section \<open>Example inputs\<close>

text \<open>
  An instance of the parameter \<open>A\<close> of \<open>Resolve\<close> for the examples: a dict reports a bound
  key as present; for an unbound key it offers the value bound to \<open>_default\<close>, if there is
  one, as a default (not present).
\<close>

fun Example_Associative :: "any \<Rightarrow> string \<Rightarrow> any \<times> bool" where
  "Example_Associative (Dict kvs) b =
     (case map_of kvs b of
        Some v \<Rightarrow> (v, True)
      | None \<Rightarrow> (case map_of kvs ''_default'' of Some d \<Rightarrow> (d, False) | None \<Rightarrow> (Nil, False)))"
| "Example_Associative a b = (Nil, False)"

definition example_vars :: "Row list \<Rightarrow> state" where
  \<comment> \<open>one scope with the given variable frames and nothing else\<close>
  "example_vars vs =
     \<lparr>scopes = [zero_Scope\<lparr>vars := vs\<rparr>], arrays = [], calls = [],
      growslice = (\<lambda>old n. 2 * n)\<rparr>"

text \<open>A registered iterate implementation for slices, for the examples.\<close>

definition Example_SliceIterator :: IterateImpl where
  "Example_SliceIterator =
     \<lparr>Applicable = (\<lambda>a. case a of Slice xs \<Rightarrow> True | _ \<Rightarrow> False),
      Iterate = (\<lambda>a. case a of Slice xs \<Rightarrow> map (\<lambda>x. Dict [(''_value'', x)]) xs | _ \<Rightarrow> [])\<rparr>"

text \<open>
  Example states. \<open>example_Scope\<close> is a scope whose bool and lt dispatchers are the given
  slices and whose other dispatchers are nil; the runtime of the examples doubles the needed
  length when it allocates. \<open>example_parent\<close> is \<open>example_root\<close> after
  \<open>AddProtocolImpl(_BoolImpl{}, _BoolInt{}, _NumericLt{})\<close>, \<open>example_copied\<close> is that
  state after \<open>Copy()\<close>, and \<open>example_extended\<close> after \<open>AddProtocolImpl(_StringLt{})\<close> on
  the child.
\<close>

definition example_Scope ::
  "Row list \<Rightarrow> slice \<Rightarrow> slice \<Rightarrow> int \<Rightarrow> nat list \<Rightarrow> destructor list \<Rightarrow> bool \<Rightarrow> Scope" where
  "example_Scope vs b l d ch fns dd =
     \<lparr>vars = vs, bool_d = b, eq_d = nil_slice, lt_d = l, add_d = nil_slice,
      sub_d = nil_slice, mul_d = nil_slice, div_d = nil_slice, membership_d = nil_slice,
      associative_d = nil_slice, regex_d = nil_slice, iterator_d = nil_slice,
      stack_depth = d, children = ch, destructors_fn = fns, destructors_is_destroyed = dd\<rparr>"

definition example_state :: "Scope list \<Rightarrow> any list list \<Rightarrow> destructor list \<Rightarrow> state" where
  "example_state scs ars cs =
     \<lparr>scopes = scs, arrays = ars, calls = cs, growslice = (\<lambda>old n. 2 * n)\<rparr>"

definition BoolImpl :: any where "BoolImpl = Host ''_BoolImpl'' [BoolProtocol]"

definition BoolInt :: any where "BoolInt = Host ''_BoolInt'' [BoolProtocol]"

definition NumericLt :: any where "NumericLt = Host ''_NumericLt'' [LtProtocol]"

definition StringLt :: any where "StringLt = Host ''_StringLt'' [LtProtocol]"

definition example_root :: state where
  "example_root = example_state [example_Scope [Dict [(''NULL'', Null)]] nil_slice nil_slice 0 [] [] False] [] []"

definition example_parent :: state where
  "example_parent =
     example_state
       [example_Scope [Dict [(''NULL'', Null)]] \<lparr>ptr = 0, len = 2, cap = 2\<rparr>
          \<lparr>ptr = 1, len = 1, cap = 2\<rparr> 0 [] [] False]
       [[BoolImpl, BoolInt], [NumericLt, Nil]] []"

definition example_copied :: state where
  "example_copied =
     example_state
       [example_Scope [Dict [(''NULL'', Null)]] \<lparr>ptr = 0, len = 2, cap = 2\<rparr>
          \<lparr>ptr = 1, len = 1, cap = 2\<rparr> 0 [1] [] False,
        example_Scope [Dict [(''NULL'', Null)]] \<lparr>ptr = 2, len = 2, cap = 4\<rparr>
          \<lparr>ptr = 3, len = 1, cap = 2\<rparr> 1 [] [] False]
       [[BoolImpl, BoolInt], [NumericLt, Nil], [BoolImpl, BoolInt, Nil, Nil], [NumericLt, Nil]] []"

definition example_extended :: state where
  "example_extended =
     example_state
       [example_Scope [Dict [(''NULL'', Null)]] \<lparr>ptr = 0, len = 2, cap = 2\<rparr>
          \<lparr>ptr = 1, len = 1, cap = 2\<rparr> 0 [1] [] False,
        example_Scope [Dict [(''NULL'', Null)]] \<lparr>ptr = 2, len = 2, cap = 4\<rparr>
          \<lparr>ptr = 3, len = 2, cap = 2\<rparr> 1 [] [] False]
       [[BoolImpl, BoolInt], [NumericLt, Nil], [BoolImpl, BoolInt, Nil, Nil], [NumericLt, StringLt]] []"


text \<open>
  The plugin \<open>scope()\<close> emits one row, the scope. \<open>TestMaterializedStoredQuery\<close> is the
  list of the five queries that the test of that name runs (vfilter\_test.go).
\<close>

definition scope_plugin :: source where
  "scope_plugin = FromPlugin [Host ''*Scope'' []]"

definition TestMaterializedStoredQuery :: "statement list" where
  "TestMaterializedStoredQuery =
     [Query (Select Counter scope_plugin),
      LET ''stored'' (Select Counter scope_plugin),
      Query (Select Star (FromVar ''stored'')),
      LET_materialized ''materialized'' (Select Counter scope_plugin),
      Query (Select Star (FromVar ''materialized''))]"

section \<open>Verified properties\<close>

subsection \<open>Resolve\<close>

lemma Resolve_loop_absent:
  "\<forall>r\<in>set fs. \<not> snd (A r field) \<Longrightarrow>
   Resolve_loop A field fs dv =
     (if dv \<noteq> Nil then (dv, True)
      else case List.find (\<lambda>r. fst (A r field) \<noteq> Nil) fs of
             None \<Rightarrow> (Nil, False)
           | Some r \<Rightarrow> (fst (A r field), True))"
  by (induction fs arbitrary: dv) (auto split: prod.splits)

lemma Resolve_loop_present:
  "\<forall>r\<in>set newer. \<not> snd (A r field) \<Longrightarrow> A fr field = (v, True) \<Longrightarrow>
   Resolve_loop A field (newer @ fr # older) dv = (if v = Nil then Null else v, True)"
  by (induction newer arbitrary: dv) (auto split: prod.splits)

text \<open>
  C10. When no frame of the scope reports the field as present, \<open>Resolve\<close> returns the
  first non-nil value that \<open>Associative\<close> returned (with \<open>pres = false\<close>) on the walk from
  the newest frame to the oldest, and reports present; when no frame offers such a default it
  returns nil and reports not present. So it reports present exactly when a default exists.
\<close>

theorem Resolve_default_value:
  assumes "deref st self = Some sc" and "\<forall>r\<in>set (vars sc). \<not> snd (A r field)"
  shows "Resolve A self field st =
           Inr (case List.find (\<lambda>r. fst (A r field) \<noteq> Nil) (rev (vars sc)) of
                  None \<Rightarrow> (Nil, False)
                | Some r \<Rightarrow> (fst (A r field), True))
         \<and> ((\<exists>v. Resolve A self field st = Inr (v, True)) \<longleftrightarrow>
              (\<exists>r\<in>set (vars sc). fst (A r field) \<noteq> Nil))"
proof -
  let ?f = "List.find (\<lambda>r. fst (A r field) \<noteq> Nil) (rev (vars sc))"
  have r: "Resolve A self field st =
             Inr (case ?f of None \<Rightarrow> (Nil, False) | Some r \<Rightarrow> (fst (A r field), True))"
    using assms by (simp add: Resolve_def Resolve_vars_def Resolve_loop_absent)
  have "(?f \<noteq> None) \<longleftrightarrow> (\<exists>r\<in>set (vars sc). fst (A r field) \<noteq> Nil)"
    by (auto simp: find_None_iff)
  then have "(\<exists>v. Resolve A self field st = Inr (v, True)) \<longleftrightarrow>
             (\<exists>r\<in>set (vars sc). fst (A r field) \<noteq> Nil)"
    unfolding r by (cases ?f) auto
  with r show ?thesis by blast
qed

theorem Resolve_default_value_witness:
  "deref (example_vars [Dict [(''_default'', Int64 7)], Dict [(''_default'', Int64 8)],
                        Dict [(''NULL'', Null)]]) 0
     = Some (zero_Scope\<lparr>vars := [Dict [(''_default'', Int64 7)], Dict [(''_default'', Int64 8)],
                                  Dict [(''NULL'', Null)]]\<rparr>)
   \<and> \<not> snd (Example_Associative (Dict [(''_default'', Int64 7)]) ''x'')
   \<and> \<not> snd (Example_Associative (Dict [(''_default'', Int64 8)]) ''x'')
   \<and> \<not> snd (Example_Associative (Dict [(''NULL'', Null)]) ''x'')
   \<and> Resolve Example_Associative 0 ''x''
        (example_vars [Dict [(''_default'', Int64 7)], Dict [(''_default'', Int64 8)],
                       Dict [(''NULL'', Null)]])
       = Inr (Int64 8, True)"
  using Resolve_default_value [of
    "example_vars [Dict [(''_default'', Int64 7)], Dict [(''_default'', Int64 8)],
                   Dict [(''NULL'', Null)]]" 0
    "zero_Scope\<lparr>vars := [Dict [(''_default'', Int64 7)], Dict [(''_default'', Int64 8)],
                          Dict [(''NULL'', Null)]]\<rparr>"
    Example_Associative "''x''"]
  by (simp add: example_vars_def deref_def)

text \<open>
  C6 fails as stated when the binding found is Go's nil: \<open>Resolve\<close> then returns \<open>Null{}\<close>
  and not the bound value. After \<open>AppendVars({k: nil})\<close> over \<open>{k: 1}\<close>, \<open>Resolve(k)\<close> is
  \<open>(Null{}, true)\<close>.
\<close>

theorem Resolve_nil_counterexample:
  "AppendVars 0 (Dict [(''k'', Nil)]) (example_vars [Dict [(''k'', Int64 1)]])
     = Inr (example_vars [Dict [(''k'', Int64 1)], Dict [(''k'', Nil)]])
   \<and> Example_Associative (Dict [(''k'', Nil)]) ''k'' = (Nil, True)
   \<and> Resolve Example_Associative 0 ''k'' (example_vars [Dict [(''k'', Int64 1)], Dict [(''k'', Nil)]])
       = Inr (Null, True)
   \<and> Null \<noteq> Nil"
  by (simp add: AppendVars_def Resolve_def Resolve_vars_def example_vars_def deref_def store_def)

text \<open>
  C6, amended. \<open>Resolve\<close> walks the frames newest first and returns, as present, the value
  of the most recently appended frame in which \<open>Associative\<close> reports the name present,
  with Go's nil replaced by \<open>Null{}\<close>. In particular, after \<open>AppendVars(row)\<close> with
  \<open>k\<close> bound to \<open>v2\<close> in \<open>row\<close>, \<open>Resolve(k)\<close> returns \<open>v2\<close> (\<open>Null{}\<close> if \<open>v2\<close> is nil),
  whatever the earlier frames bind \<open>k\<close> to.
\<close>

theorem Resolve_shadowing:
  assumes "deref st self = Some sc"
  shows "(vars sc = older @ fr # newer \<longrightarrow> A fr field = (v, True) \<longrightarrow>
            (\<forall>r\<in>set newer. \<not> snd (A r field)) \<longrightarrow>
            Resolve A self field st = Inr (if v = Nil then Null else v, True))
         \<and> (A row k = (v2, True) \<longrightarrow>
             (\<exists>st'. AppendVars self row st = Inr st' \<and>
                    Resolve A self k st' = Inr (if v2 = Nil then Null else v2, True)))"
proof (intro conjI impI)
  assume "vars sc = older @ fr # newer" "A fr field = (v, True)"
    "\<forall>r\<in>set newer. \<not> snd (A r field)"
  then show "Resolve A self field st = Inr (if v = Nil then Null else v, True)"
    using assms Resolve_loop_present [of "rev newer" A field fr v "rev older" Nil]
    by (simp add: Resolve_def Resolve_vars_def)
next
  assume a: "A row k = (v2, True)"
  have "self < length (scopes st)"
    using assms by (simp add: deref_def split: if_splits)
  then show "\<exists>st'. AppendVars self row st = Inr st' \<and>
                    Resolve A self k st' = Inr (if v2 = Nil then Null else v2, True)"
    using assms a Resolve_loop_present [of "[]" A k row v2 "rev (vars sc)" Nil]
    by (simp add: AppendVars_def Resolve_def Resolve_vars_def deref_def store_def)
qed

theorem Resolve_shadowing_witness:
  "deref (example_vars [Dict [(''k'', Int64 1)]]) 0
     = Some (zero_Scope\<lparr>vars := [Dict [(''k'', Int64 1)]]\<rparr>)
   \<and> Example_Associative (Dict [(''k'', Int64 2)]) ''k'' = (Int64 2, True)
   \<and> Resolve Example_Associative 0 ''k'' (example_vars [Dict [(''k'', Int64 1)]])
       = Inr (Int64 1, True)
   \<and> AppendVars 0 (Dict [(''k'', Int64 2)]) (example_vars [Dict [(''k'', Int64 1)]])
       = Inr (example_vars [Dict [(''k'', Int64 1)], Dict [(''k'', Int64 2)]])
   \<and> Resolve Example_Associative 0 ''k''
        (example_vars [Dict [(''k'', Int64 1)], Dict [(''k'', Int64 2)]]) = Inr (Int64 2, True)"
  using Resolve_shadowing [of "example_vars [Dict [(''k'', Int64 1)]]" 0
     "zero_Scope\<lparr>vars := [Dict [(''k'', Int64 1)]]\<rparr>" "[]" "Dict [(''k'', Int64 1)]" "[]"
     Example_Associative "''k''" "Int64 1" "Dict [(''k'', Int64 2)]" "''k''" "Int64 2"]
  by (simp add: example_vars_def deref_def AppendVars_def store_def)

subsection \<open>Iterate\<close>

text \<open>
  C4 fails as stated for a dict: with no registered implementation applicable, \<open>Iterate\<close>
  of a dict delivers the dict itself as the single row, not a row \<open>{_value: a}\<close>.
\<close>

theorem Iterate_dict_counterexample:
  "List.find (\<lambda>i. Applicable i (Dict [(''x'', Int64 1)])) [Example_SliceIterator] = None
   \<and> IterateDispatcher_Iterate [Example_SliceIterator] False (Dict [(''x'', Int64 1)])
       = [Dict [(''x'', Int64 1)]]
   \<and> IterateDispatcher_Iterate [Example_SliceIterator] False (Dict [(''x'', Int64 1)])
       \<noteq> [Dict [(''_value'', Dict [(''x'', Int64 1)])]]"
  by (simp add: Example_SliceIterator_def)

text \<open>
  C4, amended. For every value \<open>a\<close> that is not a lazy expression, a stored query or a dict
  (the cases of the type switch) and for which no registered implementation is applicable,
  \<open>Iterate\<close> delivers exactly the one row \<open>{_value: a}\<close>; if \<open>a\<close> is \<open>Null\<close> it delivers no
  row.
\<close>

theorem Iterate_default_row:
  assumes "\<not> type_switch_case a" and "\<forall>i\<in>set impl. \<not> Applicable i a"
  shows "IterateDispatcher_Iterate impl ctx_done a =
           (if a = Null then [] else [Dict [(''_value'', a)]])"
proof -
  have "List.find (\<lambda>i. Applicable i a) impl = None"
    using assms(2) by (simp add: find_None_iff)
  then show ?thesis
    using assms(1) by (cases a) (simp_all add: is_null_def)
qed

theorem Iterate_default_row_witness:
  "\<not> type_switch_case (Int64 5) \<and> \<not> Applicable Example_SliceIterator (Int64 5)
   \<and> IterateDispatcher_Iterate [Example_SliceIterator] False (Int64 5)
       = [Dict [(''_value'', Int64 5)]]
   \<and> \<not> type_switch_case Null \<and> \<not> Applicable Example_SliceIterator Null
   \<and> IterateDispatcher_Iterate [Example_SliceIterator] False Null = []"
  using Iterate_default_row [of "Int64 5" "[Example_SliceIterator]" False]
        Iterate_default_row [of Null "[Example_SliceIterator]" False]
  by (simp add: Example_SliceIterator_def)

subsection \<open>Copy and the dispatcher slices\<close>

lemmas ex_defs = example_Scope_def example_state_def BoolImpl_def BoolInt_def NumericLt_def
  StringLt_def example_root_def example_parent_def example_copied_def example_extended_def

lemmas eval_defs = Scope_Copy_def deref_def protocols_def Dispatcher_Copy_def go_append_def
  elems_def nil_slice_def Let_def new_Scope_def store_def zero_Scope_def AddProtocolImpl_def
  AddImpl_def switch_type_def

lemma dispatcher_set_dispatcher:
  "dispatcher p (set_dispatcher q s sc) = (if p = q then s else dispatcher p sc)"
  by (cases p; cases q; simp)

lemma set_protocols: "set protocols = UNIV"
proof -
  have "p \<in> set protocols" for p by (cases p) (simp_all add: protocols_def)
  then show ?thesis by blast
qed

lemma set_dispatcher_fields [simp]:
  "vars (set_dispatcher q s sc) = vars sc"
  "stack_depth (set_dispatcher q s sc) = stack_depth sc"
  "children (set_dispatcher q s sc) = children sc"
  "destructors_fn (set_dispatcher q s sc) = destructors_fn sc"
  "destructors_is_destroyed (set_dispatcher q s sc) = destructors_is_destroyed sc"
  by (cases q; simp)+

lemma go_append_frame:
  assumes "go_append s xs st = (s', st')"
  shows "scopes st' = scopes st" "calls st' = calls st" "growslice st' = growslice st"
    "length (arrays st) \<le> length (arrays st')"
  using assms by (auto simp: go_append_def Let_def split: if_splits)

lemma go_append_fresh:
  assumes "go_append s xs st = (s', st')" "fresh N s" "N \<le> length (arrays st)"
  shows "take N (arrays st') = take N (arrays st)" "fresh N s'"
  using assms by (auto simp: go_append_def Let_def fresh_def split: if_splits)

lemma go_append_nil_elems:
  assumes "go_append nil_slice xs st = (s', st')"
  shows "elems st' s' = xs" "fresh (length (arrays st)) s'"
    "0 < len s' \<longrightarrow> ptr s' < length (arrays st')"
  using assms by (auto simp: go_append_def Let_def fresh_def nil_slice_def elems_def split: if_splits)

lemma elems_take:
  assumes "take N (arrays st') = take N (arrays st)" "0 < len s \<longrightarrow> ptr s < N"
  shows "elems st' s = elems st s"
proof (cases "0 < len s")
  case True
  then have "ptr s < N" using assms by simp
  then have "arrays st' ! ptr s = take N (arrays st') ! ptr s" "arrays st ! ptr s = take N (arrays st) ! ptr s"
    by simp_all
  then show ?thesis using assms(1) by (simp add: elems_def)
next
  case False then show ?thesis by (simp add: elems_def)
qed

lemma fresh_mono: "fresh M s \<Longrightarrow> N \<le> M \<Longrightarrow> fresh N s"
  by (auto simp: fresh_def)

lemma Dispatcher_Copy_step:
  assumes dc: "Dispatcher_Copy (dispatcher q sc) st = (s, st1)"
    and N: "N \<le> length (arrays st)"
    and par: "\<forall>p. 0 < len (dispatcher p sc) \<longrightarrow> ptr (dispatcher p sc) < N"
  shows "take N (arrays st1) = take N (arrays st)"
    and "N \<le> length (arrays st1)"
    and "scopes st1 = scopes st" "calls st1 = calls st" "growslice st1 = growslice st"
    and "\<forall>p. elems st1 (dispatcher p sc) = elems st (dispatcher p sc)"
    and "copied N st1 sc (set_dispatcher q s lit) q"
    and "\<forall>p. p \<noteq> q \<longrightarrow> copied N st sc lit p \<longrightarrow> copied N st1 sc (set_dispatcher q s lit) p"
proof -
  have ga: "go_append nil_slice (elems st (dispatcher q sc)) st = (s, st1)"
    using dc by (simp add: Dispatcher_Copy_def)
  have nf: "fresh M nil_slice" for M by (simp add: fresh_def nil_slice_def)
  show t: "take N (arrays st1) = take N (arrays st)"
    using go_append_fresh(1) [OF ga nf N] .
  have tl: "take (length (arrays st)) (arrays st1) = take (length (arrays st)) (arrays st)"
    using go_append_fresh(1) [OF ga nf order_refl] .
  show l: "N \<le> length (arrays st1)"
    using go_append_frame(4) [OF ga] N by simp
  show "scopes st1 = scopes st" "calls st1 = calls st" "growslice st1 = growslice st"
    using go_append_frame [OF ga] by simp_all
  show e: "\<forall>p. elems st1 (dispatcher p sc) = elems st (dispatcher p sc)"
    using elems_take [OF t] par by blast
  have "elems st1 s = elems st (dispatcher q sc)" "fresh (length (arrays st)) s"
       "0 < len s \<longrightarrow> ptr s < length (arrays st1)"
    using go_append_nil_elems [OF ga] by simp_all
  then show "copied N st1 sc (set_dispatcher q s lit) q"
    using e N by (simp add: copied_def dispatcher_set_dispatcher fresh_mono valid_ptr_def)
  show "\<forall>p. p \<noteq> q \<longrightarrow> copied N st sc lit p \<longrightarrow> copied N st1 sc (set_dispatcher q s lit) p"
  proof (intro allI impI)
    fix p assume pq: "p \<noteq> q" and c: "copied N st sc lit p"
    have v: "0 < len (dispatcher p lit) \<longrightarrow> ptr (dispatcher p lit) < length (arrays st)"
      using c by (simp add: copied_def valid_ptr_def)
    have "elems st1 (dispatcher p lit) = elems st (dispatcher p lit)"
      using elems_take [OF tl v] .
    moreover have "valid_ptr st1 (dispatcher p lit)"
      using v go_append_frame(4) [OF ga] by (auto simp: valid_ptr_def)
    ultimately show "copied N st1 sc (set_dispatcher q s lit) p"
      using c pq e by (simp add: copied_def dispatcher_set_dispatcher)
  qed
qed

lemma Copy_dispatchers_inv:
  assumes "Copy_dispatchers ps sc lit st = (lit', st')"
    and "N \<le> length (arrays st)"
    and "\<forall>p. 0 < len (dispatcher p sc) \<longrightarrow> ptr (dispatcher p sc) < N"
    and "\<forall>p. p \<notin> set ps \<longrightarrow> copied N st sc lit p"
  shows "take N (arrays st') = take N (arrays st) \<and> N \<le> length (arrays st') \<and>
         scopes st' = scopes st \<and> calls st' = calls st \<and> growslice st' = growslice st \<and>
         vars lit' = vars lit \<and> stack_depth lit' = stack_depth lit \<and>
         children lit' = children lit \<and> destructors_fn lit' = destructors_fn lit \<and>
         destructors_is_destroyed lit' = destructors_is_destroyed lit \<and>
         (\<forall>p. copied N st' sc lit' p)"
  using assms
proof (induction ps arbitrary: lit st)
  case Nil
  then show ?case by simp
next
  case (Cons q qs)
  obtain s st1 where dc: "Dispatcher_Copy (dispatcher q sc) st = (s, st1)"
    by (cases "Dispatcher_Copy (dispatcher q sc) st")
  with Cons.prems(1) have rec: "Copy_dispatchers qs sc (set_dispatcher q s lit) st1 = (lit', st')"
    by simp
  note st = Dispatcher_Copy_step [OF dc Cons.prems(2) Cons.prems(3)]
  have pre: "\<forall>p. p \<notin> set qs \<longrightarrow> copied N st1 sc (set_dispatcher q s lit) p"
    using st(7) st(8) Cons.prems(4) by (metis list.set_intros(2) set_ConsD)
  show ?case
    using Cons.IH [OF rec st(2) Cons.prems(3) pre] st(1,3,4,5) by simp
qed

lemma Scope_Copy_props:
  assumes d: "deref st self = Some sc"
    and par: "\<forall>p. valid_ptr st (dispatcher p sc)"
    and c: "Scope_Copy self st = Inr (child, st1)"
  shows "child = length (scopes st)"
    and "length (scopes st1) = Suc (length (scopes st))"
    and "scopes st1 ! self = sc\<lparr>children := children sc @ [child]\<rparr>"
    and "\<forall>q. q < length (scopes st) \<longrightarrow> q \<noteq> self \<longrightarrow> scopes st1 ! q = scopes st ! q"
    and "take (length (arrays st)) (arrays st1) = arrays st"
    and "calls st1 = calls st" "growslice st1 = growslice st"
    and "\<forall>p. copied (length (arrays st)) st1 sc (scopes st1 ! child) p"
    and "vars (scopes st1 ! child) = vars sc"
    and "children (scopes st1 ! child) = []"
    and "destructors_fn (scopes st1 ! child) = []"
    and "\<not> destructors_is_destroyed (scopes st1 ! child)"
proof -
  let ?lit = "zero_Scope\<lparr>vars := vars sc, stack_depth := stack_depth sc + 1\<rparr>"
  obtain cs st' where cd: "Copy_dispatchers protocols sc ?lit st = (cs, st')"
    by (cases "Copy_dispatchers protocols sc ?lit st")
  have self: "self < length (scopes st)" "scopes st ! self = sc"
    using d by (auto simp: deref_def split: if_splits)
  have par': "\<forall>p. 0 < len (dispatcher p sc) \<longrightarrow> ptr (dispatcher p sc) < length (arrays st)"
    using par by (simp add: valid_ptr_def)
  have "\<forall>p. p \<notin> set protocols \<longrightarrow> copied (length (arrays st)) st sc ?lit p"
    by (simp add: set_protocols)
  note inv = Copy_dispatchers_inv [OF cd order_refl par' this]
  have ch: "child = length (scopes st)"
    and st1: "st1 = store self (sc\<lparr>children := children sc @ [length (scopes st)]\<rparr>)
                      (st'\<lparr>scopes := scopes st' @ [cs]\<rparr>)"
    using c d cd inv by (auto simp: Scope_Copy_def new_Scope_def)
  show "child = length (scopes st)" by (rule ch)
  show "length (scopes st1) = Suc (length (scopes st))"
    using inv by (simp add: st1 store_def)
  show "scopes st1 ! self = sc\<lparr>children := children sc @ [child]\<rparr>"
    using inv self by (simp add: st1 store_def ch)
  show "\<forall>q. q < length (scopes st) \<longrightarrow> q \<noteq> self \<longrightarrow> scopes st1 ! q = scopes st ! q"
    using inv self by (simp add: st1 store_def nth_append)
  show "take (length (arrays st)) (arrays st1) = arrays st"
    using inv by (simp add: st1 store_def)
  show "calls st1 = calls st" "growslice st1 = growslice st"
    using inv by (simp_all add: st1 store_def)
  have csn: "scopes st1 ! child = cs"
    using inv self by (simp add: st1 store_def ch nth_append)
  have ar: "arrays st1 = arrays st'"
    by (simp add: st1 store_def)
  have "copied (length (arrays st)) st1 sc cs p = copied (length (arrays st)) st' sc cs p" for p
    by (simp add: copied_def valid_ptr_def elems_def ar)
  then show "\<forall>p. copied (length (arrays st)) st1 sc (scopes st1 ! child) p"
    using inv csn by simp
  show "vars (scopes st1 ! child) = vars sc" "children (scopes st1 ! child) = []"
    "destructors_fn (scopes st1 ! child) = []"
    "\<not> destructors_is_destroyed (scopes st1 ! child)"
    using inv csn by (simp_all add: zero_Scope_def)
qed

lemma Dispatcher_AddImpl_fresh:
  assumes "Dispatcher_AddImpl impl es st = (impl', st')" "fresh N impl" "N \<le> length (arrays st)"
  shows "take N (arrays st') = take N (arrays st) \<and> fresh N impl' \<and> N \<le> length (arrays st') \<and>
         scopes st' = scopes st \<and> calls st' = calls st \<and> growslice st' = growslice st"
  using assms
proof (induction es arbitrary: impl st)
  case Nil
  then show ?case by simp
next
  case (Cons e es)
  obtain s1 st1 where ga: "go_append impl [e] st = (s1, st1)"
    by (cases "go_append impl [e] st")
  with Cons.prems(1) have rec: "Dispatcher_AddImpl s1 es st1 = (impl', st')" by simp
  have l: "N \<le> length (arrays st1)"
    using go_append_frame(4) [OF ga] Cons.prems(3) by simp
  show ?case
    using Cons.IH [OF rec go_append_fresh(2) [OF ga Cons.prems(2,3)] l]
      go_append_fresh(1) [OF ga Cons.prems(2,3)] go_append_frame(1,2,3) [OF ga]
    by simp
qed

lemma AddImpl_fresh:
  assumes "child < length (scopes st)" "N \<le> length (arrays st)"
    and "\<forall>p. fresh N (dispatcher p (scopes st ! child))"
  shows "take N (arrays (AddImpl child q es st)) = take N (arrays st)"
    and "N \<le> length (arrays (AddImpl child q es st))"
    and "\<forall>p. fresh N (dispatcher p (scopes (AddImpl child q es st) ! child))"
    and "length (scopes (AddImpl child q es st)) = length (scopes st)"
    and "\<forall>i. i \<noteq> child \<longrightarrow> scopes (AddImpl child q es st) ! i = scopes st ! i"
    and "calls (AddImpl child q es st) = calls st"
proof -
  obtain impl' st' where da:
    "Dispatcher_AddImpl (dispatcher q (scopes st ! child)) es st = (impl', st')"
    by (cases "Dispatcher_AddImpl (dispatcher q (scopes st ! child)) es st")
  have f: "fresh N (dispatcher q (scopes st ! child))" using assms(3) by simp
  note p = Dispatcher_AddImpl_fresh [OF da f assms(2)]
  have eq: "AddImpl child q es st = store child (set_dispatcher q impl' (scopes st ! child)) st'"
    using da p by (simp add: AddImpl_def)
  show "take N (arrays (AddImpl child q es st)) = take N (arrays st)"
    "N \<le> length (arrays (AddImpl child q es st))"
    "length (scopes (AddImpl child q es st)) = length (scopes st)"
    "\<forall>i. i \<noteq> child \<longrightarrow> scopes (AddImpl child q es st) ! i = scopes st ! i"
    "calls (AddImpl child q es st) = calls st"
    using p by (simp_all add: eq store_def)
  show "\<forall>p. fresh N (dispatcher p (scopes (AddImpl child q es st) ! child))"
    using p assms(1,3) by (simp add: eq store_def dispatcher_set_dispatcher)
qed

lemma AddProtocolImpl_loop_fresh:
  assumes "AddProtocolImpl_loop child imps st = Inr st2"
    and "child < length (scopes st)" "N \<le> length (arrays st)"
    and "\<forall>p. fresh N (dispatcher p (scopes st ! child))"
  shows "take N (arrays st2) = take N (arrays st) \<and> length (scopes st2) = length (scopes st) \<and>
         (\<forall>i. i \<noteq> child \<longrightarrow> scopes st2 ! i = scopes st ! i) \<and> calls st2 = calls st"
  using assms
proof (induction imps arbitrary: st)
  case Nil
  then show ?case by simp
next
  case (Cons imp imps)
  from Cons.prems(1) obtain q where q: "switch_type imp = Some q"
    and rec: "AddProtocolImpl_loop child imps (AddImpl child q [imp] st) = Inr st2"
    by (auto split: option.splits)
  note a = AddImpl_fresh [OF Cons.prems(2,3,4), of q "[imp]"]
  have c: "child < length (scopes (AddImpl child q [imp] st))"
    using a(4) Cons.prems(2) by simp
  show ?case
    using Cons.IH [OF rec c a(2) a(3)] a(1,4,5,6) by simp
qed

text \<open>
  C7. \<open>Copy()\<close> gives the child its own copy of the implementation list of each of the
  eleven dispatchers: right after the copy the child's lists have the parent's elements,
  and whatever implementations are then added to the child through \<open>AddProtocolImpl\<close>,
  every dispatcher slice of the parent and its elements are as they were before the copy.
  (The parent's slices are assumed to point to allocated arrays.)
\<close>

theorem Copy_dispatchers_independent:
  assumes "deref st self = Some sc"
    and "\<forall>p. valid_ptr st (dispatcher p sc)"
    and "Scope_Copy self st = Inr (child, st1)"
    and "AddProtocolImpl child imps st1 = Inr st2"
  shows "child \<noteq> self
         \<and> (\<forall>p. elems st1 (dispatcher p (scopes st1 ! child)) = elems st (dispatcher p sc))
         \<and> (\<forall>p. dispatcher p (scopes st2 ! self) = dispatcher p sc
                \<and> elems st2 (dispatcher p (scopes st2 ! self)) = elems st (dispatcher p sc))"
proof -
  note cp = Scope_Copy_props [OF assms(1,2,3)]
  have self: "self < length (scopes st)" "scopes st ! self = sc"
    using assms(1) by (auto simp: deref_def split: if_splits)
  have ne: "child \<noteq> self" using cp(1) self by simp
  let ?N = "length (arrays st)"
  have t1: "take ?N (arrays st1) = take ?N (arrays st)" using cp(5) by simp
  have par: "0 < len (dispatcher p sc) \<longrightarrow> ptr (dispatcher p sc) < ?N" for p
    using assms(2) by (simp add: valid_ptr_def)
  have e1: "elems st1 (dispatcher p sc) = elems st (dispatcher p sc)" for p
    using elems_take [OF t1 par] .
  have copy: "elems st1 (dispatcher p (scopes st1 ! child)) = elems st (dispatcher p sc)" for p
    using cp(8) e1 by (simp add: copied_def)
  have loop: "AddProtocolImpl_loop child imps st1 = Inr st2"
    using assms(4) by (simp add: AddProtocolImpl_def split: if_splits)
  have c1: "child < length (scopes st1)" using cp(1,2) by simp
  have "length (take ?N (arrays st1)) = ?N" using cp(5) by simp
  then have N1: "?N \<le> length (arrays st1)" by simp
  have fr: "\<forall>p. fresh ?N (dispatcher p (scopes st1 ! child))"
    using cp(8) by (simp add: copied_def)
  note l = AddProtocolImpl_loop_fresh [OF loop c1 N1 fr]
  have s2: "scopes st2 ! self = sc\<lparr>children := children sc @ [child]\<rparr>"
    using l ne cp(3) by simp
  have d2: "dispatcher p (scopes st2 ! self) = dispatcher p sc" for p
    unfolding s2 by (cases p) simp_all
  have t2: "take ?N (arrays st2) = take ?N (arrays st)" using l t1 by simp
  have "elems st2 (dispatcher p (scopes st2 ! self)) = elems st (dispatcher p sc)" for p
    unfolding d2 using elems_take [OF t2 par] .
  with ne copy d2 show ?thesis by blast
qed

theorem Copy_dispatchers_independent_witness:
  "Scope_Copy 0 example_parent = Inr (1, example_copied)
   \<and> AddProtocolImpl 1 [StringLt] example_copied = Inr example_extended
   \<and> elems example_copied (dispatcher LtProtocol (scopes example_copied ! 1)) = [NumericLt]
   \<and> elems example_extended (dispatcher LtProtocol (scopes example_extended ! 1))
       = [NumericLt, StringLt]
   \<and> elems example_extended (dispatcher LtProtocol (scopes example_extended ! 0)) = [NumericLt]
   \<and> elems example_extended (dispatcher BoolProtocol (scopes example_extended ! 0))
       = [BoolImpl, BoolInt]"
proof -
  let ?sc = "example_Scope [Dict [(''NULL'', Null)]] \<lparr>ptr = 0, len = 2, cap = 2\<rparr>
               \<lparr>ptr = 1, len = 1, cap = 2\<rparr> 0 [] [] False"
  have h1: "deref example_parent 0 = Some ?sc"
    by (simp add: ex_defs deref_def)
  have "valid_ptr example_parent (dispatcher p ?sc)" for p
    by (cases p) (simp_all add: ex_defs valid_ptr_def nil_slice_def)
  then have h2: "\<forall>p. valid_ptr example_parent (dispatcher p ?sc)" by blast
  have h3: "Scope_Copy 0 example_parent = Inr (1, example_copied)"
    by (simp add: ex_defs eval_defs numeral_2_eq_2)
  have h4: "AddProtocolImpl 1 [StringLt] example_copied = Inr example_extended"
    by (simp add: ex_defs eval_defs)
  have e: "elems example_parent (dispatcher LtProtocol ?sc) = [NumericLt]"
    "elems example_parent (dispatcher BoolProtocol ?sc) = [BoolImpl, BoolInt]"
    by (simp_all add: ex_defs elems_def)
  have x: "elems example_extended (dispatcher LtProtocol (scopes example_extended ! 1))
       = [NumericLt, StringLt]"
    by (simp add: ex_defs elems_def)
  note t = Copy_dispatchers_independent [OF h1 h2 h3 h4]
  have "elems example_copied (dispatcher LtProtocol (scopes example_copied ! 1))
          = elems example_parent (dispatcher LtProtocol ?sc)"
    "elems example_extended (dispatcher LtProtocol (scopes example_extended ! 0))
          = elems example_parent (dispatcher LtProtocol ?sc)"
    "elems example_extended (dispatcher BoolProtocol (scopes example_extended ! 0))
          = elems example_parent (dispatcher BoolProtocol ?sc)"
    using t by blast+
  then show ?thesis
    using h3 h4 e x by simp
qed

subsection \<open>AddProtocolImpl\<close>

lemma scope_ok_iff:
  "scope_ok st sc \<longleftrightarrow>
     (\<forall>p. slice_ok st (dispatcher p sc)) \<and>
     (\<forall>p q. p \<noteq> q \<longrightarrow> disjoint (dispatcher p sc) (dispatcher q sc))"
  by (auto simp: scope_ok_def list_all_iff set_protocols)

lemma go_append_own:
  assumes "go_append s xs st = (s', st')" "slice_ok st s"
  shows "elems st' s' = elems st s @ xs" "slice_ok st' s'"
  using assms
  by (auto simp: go_append_def Let_def slice_ok_def elems_def nth_append split: if_splits)

lemma go_append_other:
  assumes ga: "go_append s xs st = (s', st')"
    and s: "slice_ok st s" and t: "slice_ok st t" and d: "disjoint s t"
  shows "elems st' t = elems st t" "slice_ok st' t" "disjoint s' t"
proof -
  let ?n = "len s + length xs"
  consider (same) "xs = []" | (inplace) "xs \<noteq> []" "?n \<le> cap s" | (new) "xs \<noteq> []" "\<not> ?n \<le> cap s"
    by blast
  then have "elems st' t = elems st t \<and> slice_ok st' t \<and> disjoint s' t"
  proof cases
    case same
    then show ?thesis using ga t d by (simp add: go_append_def)
  next
    case inplace
    then have cs: "0 < cap s" by (cases xs) auto
    have eq: "s' = s\<lparr>len := ?n\<rparr>"
      "arrays st' = (arrays st)[ptr s :=
          take (len s) (arrays st ! ptr s) @ xs @ drop ?n (arrays st ! ptr s)]"
      using ga inplace by (auto simp: go_append_def Let_def)
    show ?thesis
    proof (cases "0 < cap t")
      case True
      then have "ptr s \<noteq> ptr t" using d cs by (simp add: disjoint_def)
      then show ?thesis using t d True by (simp add: eq elems_def slice_ok_def disjoint_def)
    next
      case False
      then show ?thesis using t by (simp add: eq elems_def slice_ok_def disjoint_def)
    qed
  next
    case new
    then obtain a where eq: "ptr s' = length (arrays st)" "arrays st' = arrays st @ [a]"
      using ga by (auto simp: go_append_def Let_def)
    show ?thesis
    proof (cases "0 < cap t")
      case True
      then show ?thesis using t by (simp add: eq elems_def slice_ok_def disjoint_def nth_append)
    next
      case False
      then show ?thesis using t by (simp add: eq elems_def slice_ok_def disjoint_def)
    qed
  qed
  then show "elems st' t = elems st t" "slice_ok st' t" "disjoint s' t" by simp_all
qed

lemma disjoint_sym: "disjoint s t = disjoint t s"
  by (auto simp: disjoint_def)

lemma Dispatcher_AddImpl_ok:
  assumes "Dispatcher_AddImpl impl es st = (impl', st')" "slice_ok st impl"
  shows "elems st' impl' = elems st impl @ es \<and> slice_ok st' impl' \<and>
         (\<forall>t. slice_ok st t \<and> disjoint impl t \<longrightarrow>
               elems st' t = elems st t \<and> slice_ok st' t \<and> disjoint impl' t)"
  using assms
proof (induction es arbitrary: impl st)
  case Nil
  then show ?case by simp
next
  case (Cons e es)
  obtain s1 st1 where ga: "go_append impl [e] st = (s1, st1)"
    by (cases "go_append impl [e] st")
  with Cons.prems(1) have rec: "Dispatcher_AddImpl s1 es st1 = (impl', st')" by simp
  note own = go_append_own [OF ga Cons.prems(2)]
  note ih = Cons.IH [OF rec own(2)]
  have "elems st' t = elems st t \<and> slice_ok st' t \<and> disjoint impl' t"
    if "slice_ok st t" "disjoint impl t" for t
    using go_append_other [OF ga Cons.prems(2) that] ih by simp
  then show ?case using ih own(1) by simp
qed

lemma AddImpl_ok:
  assumes self: "self < length (scopes st)" and ok: "scope_ok st (scopes st ! self)"
  shows "scope_ok (AddImpl self q es st) (scopes (AddImpl self q es st) ! self)"
    and "\<forall>p. elems (AddImpl self q es st) (dispatcher p (scopes (AddImpl self q es st) ! self))
             = elems st (dispatcher p (scopes st ! self)) @ (if p = q then es else [])"
    and "length (scopes (AddImpl self q es st)) = length (scopes st)"
proof -
  let ?sc = "scopes st ! self"
  obtain impl' st' where da: "Dispatcher_AddImpl (dispatcher q ?sc) es st = (impl', st')"
    by (cases "Dispatcher_AddImpl (dispatcher q ?sc) es st")
  have okq: "slice_ok st (dispatcher q ?sc)" using ok by (simp add: scope_ok_iff)
  note a = Dispatcher_AddImpl_ok [OF da okq]
  have fr: "scopes st' = scopes st"
    using Dispatcher_AddImpl_fresh [OF da, of 0] by (simp add: fresh_def)
  let ?st2 = "AddImpl self q es st"
  have eq: "?st2 = store self (set_dispatcher q impl' ?sc) st'"
    using da fr by (simp add: AddImpl_def)
  have sc2: "scopes ?st2 ! self = set_dispatcher q impl' ?sc"
    using self fr by (simp add: eq store_def)
  have ar: "arrays ?st2 = arrays st'" by (simp add: eq store_def)
  have el: "elems ?st2 s = elems st' s" "slice_ok ?st2 s = slice_ok st' s" for s
    by (simp_all add: elems_def slice_ok_def ar)
  have oth: "elems st' (dispatcher p ?sc) = elems st (dispatcher p ?sc) \<and>
             slice_ok st' (dispatcher p ?sc) \<and> disjoint impl' (dispatcher p ?sc)"
    if "p \<noteq> q" for p
    using a ok that by (simp add: scope_ok_iff)
  show "length (scopes ?st2) = length (scopes st)"
    using fr by (simp add: eq store_def)
  show "\<forall>p. elems ?st2 (dispatcher p (scopes ?st2 ! self))
             = elems st (dispatcher p ?sc) @ (if p = q then es else [])"
    using a oth by (simp add: sc2 el dispatcher_set_dispatcher)
  have 1: "slice_ok ?st2 (dispatcher p (scopes ?st2 ! self))" for p
    using a oth by (simp add: sc2 el dispatcher_set_dispatcher)
  have 2: "disjoint (dispatcher p (scopes ?st2 ! self)) (dispatcher r (scopes ?st2 ! self))"
    if "p \<noteq> r" for p r
  proof -
    have "disjoint (dispatcher p ?sc) (dispatcher r ?sc)"
      using ok that by (simp add: scope_ok_iff)
    then show ?thesis
      using oth [of p] oth [of r] that
      by (auto simp: sc2 dispatcher_set_dispatcher disjoint_sym)
  qed
  show "scope_ok ?st2 (scopes ?st2 ! self)"
    using 1 2 by (simp add: scope_ok_iff)
qed

lemma switch_type_Some: "switch_type imp = Some p \<Longrightarrow> p \<in> set (satisfied imp)"
  by (auto simp: switch_type_def find_Some_iff)

lemma switch_type_None: "switch_type imp = None \<longleftrightarrow> satisfied imp = []"
proof -
  have "switch_type imp = None \<longleftrightarrow> (\<forall>p. p \<notin> set (satisfied imp))"
    by (simp add: switch_type_def find_None_iff set_protocols)
  also have "\<dots> \<longleftrightarrow> satisfied imp = []"
    by (cases "satisfied imp") auto
  finally show ?thesis .
qed

lemma AddProtocolImpl_loop_panic:
  "AddProtocolImpl_loop self imps st = Inl e \<longleftrightarrow>
     e = Panic ''Unsupported interface'' \<and> (\<exists>imp\<in>set imps. satisfied imp = [])"
  by (induction imps arbitrary: st)
     (auto simp: switch_type_None dest: switch_type_Some split: option.splits)

lemma AddProtocolImpl_loop_ok:
  assumes "AddProtocolImpl_loop self imps st = Inr st'"
    and "self < length (scopes st)" "scope_ok st (scopes st ! self)"
  shows "scope_ok st' (scopes st' ! self) \<and> length (scopes st') = length (scopes st) \<and>
         (\<forall>p. elems st' (dispatcher p (scopes st' ! self))
               = elems st (dispatcher p (scopes st ! self))
                 @ filter (\<lambda>imp. switch_type imp = Some p) imps)"
  using assms
proof (induction imps arbitrary: st)
  case Nil
  then show ?case by simp
next
  case (Cons imp imps)
  from Cons.prems(1) obtain q where q: "switch_type imp = Some q"
    and rec: "AddProtocolImpl_loop self imps (AddImpl self q [imp] st) = Inr st'"
    by (auto split: option.splits)
  note a = AddImpl_ok [OF Cons.prems(2,3), of q "[imp]"]
  have s: "self < length (scopes (AddImpl self q [imp] st))"
    using a(3) Cons.prems(2) by simp
  show ?case
    using Cons.IH [OF rec s a(1)] a(2,3) q by auto
qed

text \<open>
  C8. \<open>AddProtocolImpl\<close> panics with "Unsupported interface" exactly when one of the
  values it is given satisfies none of the eleven protocol interfaces. When every value
  satisfies at least one, it does not panic, and each value has been appended to the
  dispatcher of the case of the type switch that takes it, a protocol the value satisfies;
  the other dispatchers of the scope keep their elements.
\<close>

theorem AddProtocolImpl_panics_or_routes:
  assumes "deref st self = Some sc" and "scope_ok st sc"
  shows "(AddProtocolImpl self imps st = Inl (Panic ''Unsupported interface'')
            \<longleftrightarrow> (\<exists>imp\<in>set imps. satisfied imp = []))
         \<and> ((\<forall>imp\<in>set imps. satisfied imp \<noteq> []) \<longrightarrow>
              (\<exists>st'. AddProtocolImpl self imps st = Inr st' \<and>
                 (\<forall>p. elems st' (dispatcher p (scopes st' ! self))
                       = elems st (dispatcher p sc)
                         @ filter (\<lambda>imp. switch_type imp = Some p) imps)))
         \<and> (\<forall>imp\<in>set imps. \<forall>p. switch_type imp = Some p \<longrightarrow> p \<in> set (satisfied imp))"
proof -
  have self: "self < length (scopes st)" "scopes st ! self = sc"
    using assms(1) by (auto simp: deref_def split: if_splits)
  have eq: "AddProtocolImpl self imps st = AddProtocolImpl_loop self imps st"
    using self by (simp add: AddProtocolImpl_def)
  have 1: "AddProtocolImpl self imps st = Inl (Panic ''Unsupported interface'')
            \<longleftrightarrow> (\<exists>imp\<in>set imps. satisfied imp = [])"
    unfolding eq by (simp add: AddProtocolImpl_loop_panic)
  have 2: "\<exists>st'. AddProtocolImpl self imps st = Inr st' \<and>
                 (\<forall>p. elems st' (dispatcher p (scopes st' ! self))
                       = elems st (dispatcher p sc)
                         @ filter (\<lambda>imp. switch_type imp = Some p) imps)"
    if "\<forall>imp\<in>set imps. satisfied imp \<noteq> []"
  proof (cases "AddProtocolImpl_loop self imps st")
    case (Inl e)
    then show ?thesis using that by (simp add: AddProtocolImpl_loop_panic)
  next
    case (Inr st')
    then show ?thesis
      using AddProtocolImpl_loop_ok [OF Inr self(1)] assms(2) self(2) by (simp add: eq)
  qed
  show ?thesis using 1 2 switch_type_Some by blast
qed

theorem AddProtocolImpl_panics_or_routes_witness:
  "AddProtocolImpl 0 [BoolImpl, Int64 3] example_parent = Inl (Panic ''Unsupported interface'')
   \<and> satisfied (Int64 3) = []
   \<and> (\<exists>st'. AddProtocolImpl 0 [StringLt, BoolImpl] example_parent = Inr st'
         \<and> elems st' (dispatcher LtProtocol (scopes st' ! 0)) = [NumericLt, StringLt]
         \<and> elems st' (dispatcher BoolProtocol (scopes st' ! 0)) = [BoolImpl, BoolInt, BoolImpl])"
proof -
  let ?sc = "example_Scope [Dict [(''NULL'', Null)]] \<lparr>ptr = 0, len = 2, cap = 2\<rparr>
               \<lparr>ptr = 1, len = 1, cap = 2\<rparr> 0 [] [] False"
  have h1: "deref example_parent 0 = Some ?sc"
    by (simp add: ex_defs deref_def)
  have h2: "scope_ok example_parent ?sc"
    by (simp add: ex_defs scope_ok_def protocols_def slice_ok_def disjoint_def nil_slice_def)
  have e: "elems example_parent (dispatcher LtProtocol ?sc) = [NumericLt]"
    "elems example_parent (dispatcher BoolProtocol ?sc) = [BoolImpl, BoolInt]"
    by (simp_all add: ex_defs elems_def)
  have s: "switch_type StringLt = Some LtProtocol" "switch_type BoolImpl = Some BoolProtocol"
    by (simp_all add: switch_type_def protocols_def ex_defs)
  have 1: "AddProtocolImpl 0 [BoolImpl, Int64 3] example_parent
             = Inl (Panic ''Unsupported interface'')"
    using AddProtocolImpl_panics_or_routes [OF h1 h2, of "[BoolImpl, Int64 3]"] by simp
  have "\<forall>imp\<in>set [StringLt, BoolImpl]. satisfied imp \<noteq> []"
    by (simp add: ex_defs)
  then obtain st' where st': "AddProtocolImpl 0 [StringLt, BoolImpl] example_parent = Inr st'"
    "\<forall>p. elems st' (dispatcher p (scopes st' ! 0))
           = elems example_parent (dispatcher p ?sc)
             @ filter (\<lambda>imp. switch_type imp = Some p) [StringLt, BoolImpl]"
    using AddProtocolImpl_panics_or_routes [OF h1 h2, of "[StringLt, BoolImpl]"] by blast
  have "elems st' (dispatcher LtProtocol (scopes st' ! 0))
          = elems example_parent (dispatcher LtProtocol ?sc)
            @ filter (\<lambda>imp. switch_type imp = Some LtProtocol) [StringLt, BoolImpl]"
    "elems st' (dispatcher BoolProtocol (scopes st' ! 0))
          = elems example_parent (dispatcher BoolProtocol ?sc)
            @ filter (\<lambda>imp. switch_type imp = Some BoolProtocol) [StringLt, BoolImpl]"
    using st'(2) by blast+
  then have "elems st' (dispatcher LtProtocol (scopes st' ! 0)) = [NumericLt, StringLt]"
    "elems st' (dispatcher BoolProtocol (scopes st' ! 0)) = [BoolImpl, BoolInt, BoolImpl]"
    using e s by simp_all
  with 1 st'(1) show ?thesis by simp
qed

subsection \<open>Close\<close>





















subsection \<open>Children\<close>








subsection \<open>LET\<close>

lemma project_Counter: "snd (project Counter rows c) = c + length rows"
  "length (fst (project Counter rows c)) = length rows"
  by (induction rows arbitrary: c) (simp_all add: case_prod_beta)

lemma project_Star: "project Star rows c = (rows, c)"
  by simp

lemma run_reference_lazy:
  assumes "bindings s x = Some (Stored (Select Counter (FromPlugin rows)))"
  shows "run_query (Suc (Suc depth)) (reference x) s
           = s\<lparr>CounterFunctionCount := CounterFunctionCount s + length rows\<rparr>"
  using assms by (simp add: reference_def project_Counter case_prod_beta)

lemma run_reference_materialized:
  assumes "bindings s x = Some (Sequence rs)"
  shows "run_query (Suc depth) (reference x) s = s"
  using assms by (simp add: reference_def)

lemma run_references_lazy:
  assumes "bindings s x = Some (Stored (Select Counter (FromPlugin rows)))"
  shows "run_queries (Suc (Suc depth)) (replicate n (reference x)) s
           = s\<lparr>CounterFunctionCount := CounterFunctionCount s + n * length rows\<rparr>"
  using assms
proof (induction n arbitrary: s)
  case 0
  then show ?case by simp
next
  case (Suc n)
  let ?s1 = "s\<lparr>CounterFunctionCount := CounterFunctionCount s + length rows\<rparr>"
  have b: "bindings ?s1 x = Some (Stored (Select Counter (FromPlugin rows)))"
    using Suc.prems by simp
  show ?case
    using Suc.IH [OF b] run_reference_lazy [OF Suc.prems, of depth]
    by (simp add: add.assoc add.commute)
qed

lemma run_references_materialized:
  assumes "bindings s x = Some (Sequence rs)"
  shows "run_queries (Suc depth) (replicate n (reference x)) s = s"
  using assms
  by (induction n) (simp_all add: run_reference_materialized)

text \<open>
  C2. After the lazy binding \<open>LET x = SELECT counter() FROM p\<close>, binding alone does not
  call the function, and each of \<open>n\<close> later references \<open>SELECT * FROM x\<close> evaluates the
  query afresh: the function has been called once per row of \<open>p\<close> for each reference (once
  per reference for the one-row plugin \<open>scope()\<close>). The materialized binding
  \<open>LET x <= SELECT counter() FROM p\<close> calls it once per row at the \<open>LET\<close>, and no number of
  later references calls it again.
\<close>

theorem LET_lazy_vs_materialized:
  assumes "2 \<le> depth"
  shows "CounterFunctionCount
           (run_queries depth
              (LET x (Select Counter (FromPlugin rows)) # replicate n (reference x)) s)
           = CounterFunctionCount s + n * length rows
         \<and> CounterFunctionCount
             (run_query depth (LET_materialized x (Select Counter (FromPlugin rows))) s)
           = CounterFunctionCount s + length rows
         \<and> CounterFunctionCount
             (run_queries depth
                (LET_materialized x (Select Counter (FromPlugin rows)) # replicate n (reference x)) s)
           = CounterFunctionCount s + length rows"
proof -
  obtain d where d: "depth = Suc (Suc d)"
    using assms by (metis Suc_le_D numeral_2_eq_2 le_Suc_ex add_Suc add_Suc_right add_2_eq_Suc)
  let ?q = "Select Counter (FromPlugin rows)"
  let ?s1 = "run_query depth (LET x ?q) s"
  have b1: "bindings ?s1 x = Some (Stored ?q)" by simp
  have c1: "CounterFunctionCount ?s1 = CounterFunctionCount s" by simp
  have 1: "CounterFunctionCount (run_queries depth (LET x ?q # replicate n (reference x)) s)
             = CounterFunctionCount s + n * length rows"
    using run_references_lazy [OF b1, of d n] c1 unfolding d by simp
  let ?s2 = "run_query depth (LET_materialized x ?q) s"
  have b2: "bindings ?s2 x = Some (Sequence (fst (project Counter rows (CounterFunctionCount s))))"
    unfolding d by (simp add: case_prod_beta)
  have 2: "CounterFunctionCount ?s2 = CounterFunctionCount s + length rows"
    unfolding d by (simp add: case_prod_beta project_Counter)
  have 3: "CounterFunctionCount
             (run_queries depth (LET_materialized x ?q # replicate n (reference x)) s)
           = CounterFunctionCount s + length rows"
    using run_references_materialized [OF b2, of "Suc d" n] 2 unfolding d by simp
  from 1 2 3 show ?thesis by blast
qed

theorem LET_lazy_vs_materialized_witness:
  "(2::nat) \<le> 5
   \<and> CounterFunctionCount
       (run_queries 5 (LET ''stored'' (Select Counter scope_plugin) # replicate 3 (reference ''stored''))
          \<lparr>CounterFunctionCount = 1, bindings = Map.empty\<rparr>) = 4
   \<and> CounterFunctionCount
       (run_queries 5 (LET_materialized ''materialized'' (Select Counter scope_plugin)
                        # replicate 3 (reference ''materialized''))
          \<lparr>CounterFunctionCount = 2, bindings = Map.empty\<rparr>) = 3
   \<and> map (\<lambda>k. CounterFunctionCount
                 (run_queries 5 (take k TestMaterializedStoredQuery)
                    \<lparr>CounterFunctionCount = 0, bindings = Map.empty\<rparr>)) [1, 2, 3, 4, 5]
       = [1, 1, 2, 3, 3]"
proof -
  have h: "(2::nat) \<le> 5" by simp
  have t: "map (\<lambda>k. CounterFunctionCount
                 (run_queries 5 (take k TestMaterializedStoredQuery)
                    \<lparr>CounterFunctionCount = 0, bindings = Map.empty\<rparr>)) [1, 2, 3, 4, 5]
       = [1, 1, 2, 3, 3]"
    by (simp add: TestMaterializedStoredQuery_def scope_plugin_def eval_nat_numeral)
  show ?thesis
    using LET_lazy_vs_materialized [OF h, of "''stored''" "[Host ''*Scope'' []]" 3
            "\<lparr>CounterFunctionCount = 1, bindings = Map.empty\<rparr>"]
          LET_lazy_vs_materialized [OF h, of "''materialized''" "[Host ''*Scope'' []]" 3
            "\<lparr>CounterFunctionCount = 2, bindings = Map.empty\<rparr>"]
          t
    by (simp add: scope_plugin_def)
qed

end
